theory Spec2Isabelle
  imports Main "HOL-Library.Multiset"
begin

section \<open>CPQueue: the bounded queue bound to one consumer\<close>

text \<open>
  \<^verbatim>\<open>enum class EFullMode : int { SKIP_LAST, DROP_FIRST, WAIT }\<close> of CPQueue.h.  The
  final \<^verbatim>\<open>else assert(false)\<close> of \<^verbatim>\<open>Push\<close> is reached by none of the three
  enumerators.
\<close>

datatype EFullMode = SKIP_LAST | DROP_FIRST | WAIT

text \<open>
  The fields of \<^verbatim>\<open>CPQueue<T>\<close>.  \<open>'v\<close> is the element type \<^verbatim>\<open>T\<close>, \<open>'c\<close> the
  identity of a consumer object: \<^verbatim>\<open>IConsumer<T>* consumer\<close> is \<open>None\<close> for
  \<^verbatim>\<open>nullptr\<close> and \<open>Some c\<close> for a pointer to consumer \<open>c\<close>.  \<^verbatim>\<open>std::queue<T> cpq\<close>
  is the list of its elements, front first.  \<^verbatim>\<open>size_t maxSize\<close> is only ever compared
  with \<^verbatim>\<open>cpq.size()\<close>, never computed on, so it is a natural number.  Of
  \<^verbatim>\<open>ICPQNotifier* notifier\<close> only whether it is null matters: \<open>notifier\<close> is true
  when it points to an owner.  The mutexes and the condition variable carry no data;
  each function below is one critical section (or a sequence of them run without
  interruption).
\<close>

record ('v, 'c) CPQueue =
  cpq :: "'v list"
  maxSize :: nat
  notifier :: bool
  full_mode :: EFullMode
  skip_if_no_consumer :: bool
  consumer :: "'c option"

text \<open>\<^verbatim>\<open>const size_t MAX_CAPACITY = 1000\<close>\<close>

definition MAX_CAPACITY :: nat where
  "MAX_CAPACITY = 1000"

text \<open>The constructor: an empty buffer and no consumer.\<close>

definition CPQueue_init :: "nat \<Rightarrow> EFullMode \<Rightarrow> bool \<Rightarrow> bool \<Rightarrow> ('v, 'c) CPQueue" where
  "CPQueue_init max_size fm skip_no_cons notif =
     \<lparr>cpq = [], maxSize = max_size, notifier = notif, full_mode = fm,
      skip_if_no_consumer = skip_no_cons, consumer = None\<rparr>"

definition SetConsumer :: "'c option \<Rightarrow> ('v, 'c) CPQueue \<Rightarrow> ('v, 'c) CPQueue" where
  "SetConsumer cons q = q\<lparr>consumer := cons\<rparr>"

text \<open>
  What a call of \<^verbatim>\<open>Push\<close> can do.  \<open>Returned (q, n)\<close>: the call returned, the queue
  is \<open>q\<close>, and \<open>n\<close> tells whether \<^verbatim>\<open>notifier->Notify()\<close> was called.  \<open>Suspended\<close>: the
  caller sleeps in \<^verbatim>\<open>cv.wait\<close> (mode \<^verbatim>\<open>WAIT\<close>, queue full); the queue is as before.
  \<open>PopEmpty\<close>: the call executed \<^verbatim>\<open>cpq.pop()\<close> on an empty \<^verbatim>\<open>std::queue\<close>, which
  has no defined behaviour in C++.
\<close>

datatype 'a outcome =
    Returned 'a
  | Suspended
  | PopEmpty

text \<open>\<^verbatim>\<open>cpq.push(value); loc.unlock(); if (notifier) notifier->Notify();\<close>\<close>

definition Push_append :: "'v \<Rightarrow> ('v, 'c) CPQueue \<Rightarrow> (('v, 'c) CPQueue \<times> bool) outcome" where
  "Push_append v q = Returned (q\<lparr>cpq := cpq q @ [v]\<rparr>, notifier q)"

text \<open>\<^verbatim>\<open>Push\<close>, lines 323-358.\<close>

definition Push :: "'v \<Rightarrow> ('v, 'c) CPQueue \<Rightarrow> (('v, 'c) CPQueue \<times> bool) outcome" where
  "Push v q =
     (if skip_if_no_consumer q \<and> consumer q = None then Returned (q, False)
      else if length (cpq q) = maxSize q then
        (case full_mode q of
           SKIP_LAST \<Rightarrow> Returned (q, False)
         | DROP_FIRST \<Rightarrow>
             (case cpq q of
                [] \<Rightarrow> PopEmpty
              | x # xs \<Rightarrow> Push_append v (q\<lparr>cpq := xs\<rparr>))
         | WAIT \<Rightarrow> Suspended)
      else Push_append v q)"

text \<open>
  A producer suspended in \<^verbatim>\<open>cv.wait(loc, [this]() { return cpq.size() < maxSize; })\<close>
  that is woken: it holds the lock again, tests the predicate, and either goes on to
  \<^verbatim>\<open>cpq.push(value)\<close> or sleeps again.
\<close>

definition Push_resume :: "'v \<Rightarrow> ('v, 'c) CPQueue \<Rightarrow> (('v, 'c) CPQueue \<times> bool) outcome" where
  "Push_resume v q = (if length (cpq q) < maxSize q then Push_append v q else Suspended)"

text \<open>
  \<^verbatim>\<open>Consume\<close>, lines 364-390.  The result is the returned boolean, the calls of
  \<^verbatim>\<open>consumer->Consume(cpq.front())\<close> made before returning (none or one, each the
  consumer and the value it was handed), and the queue afterwards.  The
  \<^verbatim>\<open>cv.notify_all()\<close> of mode \<^verbatim>\<open>WAIT\<close> changes no data; it lets suspended producers
  run \<open>Push_resume\<close>.
\<close>

definition Consume :: "('v, 'c) CPQueue \<Rightarrow> bool \<times> ('c \<times> 'v) list \<times> ('v, 'c) CPQueue" where
  "Consume q =
     (case consumer q of
        None \<Rightarrow> (False, [], q)
      | Some c \<Rightarrow>
          (case cpq q of
             [] \<Rightarrow> (False, [], q)
           | x # xs \<Rightarrow> (True, [(c, x)], q\<lparr>cpq := xs\<rparr>)))"

definition size_CPQueue :: "('v, 'c) CPQueue \<Rightarrow> nat" where
  "size_CPQueue q = length (cpq q)"

text \<open>\<^verbatim>\<open>Clear\<close>, lines 405-414: \<^verbatim>\<open>cpq = {}\<close>.\<close>

definition Clear :: "('v, 'c) CPQueue \<Rightarrow> ('v, 'c) CPQueue" where
  "Clear q = q\<lparr>cpq := []\<rparr>"

text \<open>Pushing a list of values one after the other, nothing else running in between.\<close>

fun Push_all :: "'v list \<Rightarrow> ('v, 'c) CPQueue \<Rightarrow> ('v, 'c) CPQueue outcome" where
  "Push_all [] q = Returned q"
| "Push_all (v # vs) q =
     (case Push v q of
        Returned (q', n) \<Rightarrow> Push_all vs q'
      | Suspended \<Rightarrow> Suspended
      | PopEmpty \<Rightarrow> PopEmpty)"

subsection \<open>One queue used by several threads\<close>

text \<open>
  Every access to \<^verbatim>\<open>cpq\<close> happens under \<^verbatim>\<open>mtx\<close>, every access to \<^verbatim>\<open>consumer\<close> under
  \<^verbatim>\<open>consumer_mtx\<close>, so an execution of one queue is a sequence of the operations
  below.  \<open>waiting\<close> holds the values of the producers that sleep in the \<^verbatim>\<open>cv.wait\<close>
  of \<^verbatim>\<open>Push\<close>; \<open>OpResume i\<close> is the \<open>i\<close>-th of them waking up (after a \<^verbatim>\<open>notify_all\<close>
  or spuriously) and testing the predicate again.  \<open>calls\<close> records the calls of
  \<^verbatim>\<open>IConsumer::Consume\<close> in the order they were made.
\<close>

record ('v, 'c) qstate =
  the_queue :: "('v, 'c) CPQueue"
  waiting :: "'v list"
  calls :: "('c \<times> 'v) list"

datatype ('v, 'c) qop =
    OpPush 'v
  | OpResume nat
  | OpConsume
  | OpClear
  | OpSetConsumer "'c option"

definition qstate_init :: "('v, 'c) CPQueue \<Rightarrow> ('v, 'c) qstate" where
  "qstate_init q = \<lparr>the_queue = q, waiting = [], calls = []\<rparr>"

fun qstep :: "('v, 'c) qop \<Rightarrow> ('v, 'c) qstate \<Rightarrow> ('v, 'c) qstate option" where
  "qstep (OpPush v) s =
     (case Push v (the_queue s) of
        Returned (q', n) \<Rightarrow> Some (s\<lparr>the_queue := q'\<rparr>)
      | Suspended \<Rightarrow> Some (s\<lparr>waiting := waiting s @ [v]\<rparr>)
      | PopEmpty \<Rightarrow> None)"
| "qstep (OpResume i) s =
     (if i < length (waiting s) then
        (case Push_resume (waiting s ! i) (the_queue s) of
           Returned (q', n) \<Rightarrow>
             Some (s\<lparr>the_queue := q', waiting := take i (waiting s) @ drop (Suc i) (waiting s)\<rparr>)
         | Suspended \<Rightarrow> Some s
         | PopEmpty \<Rightarrow> None)
      else Some s)"
| "qstep OpConsume s =
     (case Consume (the_queue s) of
        (r, cs, q') \<Rightarrow> Some (s\<lparr>the_queue := q', calls := calls s @ cs\<rparr>))"
| "qstep OpClear s = Some (s\<lparr>the_queue := Clear (the_queue s)\<rparr>)"
| "qstep (OpSetConsumer c) s = Some (s\<lparr>the_queue := SetConsumer c (the_queue s)\<rparr>)"

fun qrun :: "('v, 'c) qop list \<Rightarrow> ('v, 'c) qstate \<Rightarrow> ('v, 'c) qstate option" where
  "qrun [] s = Some s"
| "qrun (opn # ops) s = (case qstep opn s of None \<Rightarrow> None | Some s' \<Rightarrow> qrun ops s')"







section \<open>CMultiQueueProcessor: the queues and the worker\<close>

text \<open>
  The fields of \<^verbatim>\<open>CMultiQueueProcessor<KeyType, ValueType>\<close>.  \<^verbatim>\<open>std::set<KeyType> keys\<close>
  is the list of its elements in ascending order without duplicates, the order in which
  \<^verbatim>\<open>for (KeyType key : keys)\<close> visits them.  \<^verbatim>\<open>queues\<close> maps a key to the queue it owns;
  a \<^verbatim>\<open>RawQPtr\<close> got from \<^verbatim>\<open>GetQueue\<close> is the key's entry, and a change made through the
  pointer is written back to the entry.
\<close>

record ('k, 'v, 'c) CMultiQueueProcessor =
  keys :: "'k list"
  queues :: "'k \<rightharpoonup> ('v, 'c) CPQueue"
  running :: bool
  data_ready :: bool

definition keys_insert :: "'k::linorder \<Rightarrow> 'k list \<Rightarrow> 'k list" where
  "keys_insert key ks = (if key \<in> set ks then ks else insort key ks)"

definition keys_erase :: "'k \<Rightarrow> 'k list \<Rightarrow> 'k list" where
  "keys_erase key ks = removeAll key ks"

definition StartProcessing ::
  "('k, 'v, 'c) CMultiQueueProcessor \<Rightarrow> ('k, 'v, 'c) CMultiQueueProcessor" where
  "StartProcessing d = (if \<not> running d then d\<lparr>running := True\<rparr> else d)"

text \<open>
  The constructor: the member initialisers, then \<^verbatim>\<open>StartProcessing()\<close>, which also
  starts the worker thread at the head of \<^verbatim>\<open>Process\<close>.
\<close>

definition CMultiQueueProcessor_init :: "('k, 'v, 'c) CMultiQueueProcessor" where
  "CMultiQueueProcessor_init =
     StartProcessing \<lparr>keys = [], queues = Map.empty, running = False, data_ready = False\<rparr>"

definition StopProcessing ::
  "('k, 'v, 'c) CMultiQueueProcessor \<Rightarrow> ('k, 'v, 'c) CMultiQueueProcessor" where
  "StopProcessing d = d\<lparr>running := False\<rparr>"

definition Notify ::
  "('k, 'v, 'c) CMultiQueueProcessor \<Rightarrow> ('k, 'v, 'c) CMultiQueueProcessor" where
  "Notify d = d\<lparr>data_ready := True\<rparr>"

definition GetQueue :: "'k \<Rightarrow> ('k, 'v, 'c) CMultiQueueProcessor \<Rightarrow> ('v, 'c) CPQueue option" where
  "GetQueue key d = queues d key"

text \<open>\<^verbatim>\<open>Subscribe\<close>, lines 68-78.  The consumer pointer may be null.\<close>

definition Subscribe ::
  "'k::linorder \<Rightarrow> 'c option \<Rightarrow> ('k, 'v, 'c) CMultiQueueProcessor \<Rightarrow> ('k, 'v, 'c) CMultiQueueProcessor" where
  "Subscribe key cons d =
     (let d' = (case GetQueue key d of
                  Some q \<Rightarrow> d\<lparr>queues := (queues d)(key \<mapsto> SetConsumer cons q)\<rparr>
                | None \<Rightarrow> d)
      in d'\<lparr>keys := keys_insert key (keys d')\<rparr>)"

text \<open>\<^verbatim>\<open>Unsubscribe\<close>, lines 84-94.\<close>

definition Unsubscribe ::
  "'k \<Rightarrow> ('k, 'v, 'c) CMultiQueueProcessor \<Rightarrow> ('k, 'v, 'c) CMultiQueueProcessor" where
  "Unsubscribe key d =
     (let d' = (case GetQueue key d of
                  Some q \<Rightarrow> d\<lparr>queues := (queues d)(key \<mapsto> SetConsumer None q)\<rparr>
                | None \<Rightarrow> d)
      in d'\<lparr>keys := keys_erase key (keys d')\<rparr>)"

text \<open>
  \<^verbatim>\<open>CreateQueue\<close>, lines 103-113.  \<^verbatim>\<open>queues.emplace(...).second\<close> is true, the key
  being absent; the new queue's notifier is \<^verbatim>\<open>this\<close>.
\<close>

definition CreateQueue ::
  "'k \<Rightarrow> EFullMode \<Rightarrow> bool \<Rightarrow> ('k, 'v, 'c) CMultiQueueProcessor
     \<Rightarrow> bool \<times> ('k, 'v, 'c) CMultiQueueProcessor" where
  "CreateQueue key fm skip_no_cons d =
     (if queues d key = None
      then (True, d\<lparr>queues := (queues d)(key \<mapsto> CPQueue_init MAX_CAPACITY fm skip_no_cons True)\<rparr>)
      else (False, d))"

text \<open>\<^verbatim>\<open>DeleteQueue\<close>, lines 119-124.\<close>

definition DeleteQueue ::
  "'k \<Rightarrow> ('k, 'v, 'c) CMultiQueueProcessor \<Rightarrow> ('k, 'v, 'c) CMultiQueueProcessor" where
  "DeleteQueue key d = (let d' = Unsubscribe key d in d'\<lparr>queues := (queues d')(key := None)\<rparr>)"

text \<open>
  \<^verbatim>\<open>Enqueue\<close>, lines 131-138, with the \<^verbatim>\<open>Notify\<close> the queue calls on its owner after
  it has appended a value.
\<close>

definition Enqueue ::
  "'k \<Rightarrow> 'v \<Rightarrow> ('k, 'v, 'c) CMultiQueueProcessor \<Rightarrow> ('k, 'v, 'c) CMultiQueueProcessor outcome" where
  "Enqueue key v d =
     (case GetQueue key d of
        None \<Rightarrow> Returned d
      | Some q \<Rightarrow>
          (case Push v q of
             Returned (q', n) \<Rightarrow>
               (let d' = d\<lparr>queues := (queues d)(key \<mapsto> q')\<rparr>
                in Returned (if n then Notify d' else d'))
           | Suspended \<Rightarrow> Suspended
           | PopEmpty \<Rightarrow> PopEmpty))"

text \<open>A producer that sleeps in the \<^verbatim>\<open>Push\<close> of \<^verbatim>\<open>Enqueue\<close> and is woken.\<close>

definition Enqueue_resume ::
  "'k \<Rightarrow> 'v \<Rightarrow> ('k, 'v, 'c) CMultiQueueProcessor \<Rightarrow> ('k, 'v, 'c) CMultiQueueProcessor outcome" where
  "Enqueue_resume key v d =
     (case GetQueue key d of
        None \<Rightarrow> Suspended
      | Some q \<Rightarrow>
          (case Push_resume v q of
             Returned (q', n) \<Rightarrow>
               (let d' = d\<lparr>queues := (queues d)(key \<mapsto> q')\<rparr>
                in Returned (if n then Notify d' else d'))
           | Suspended \<Rightarrow> Suspended
           | PopEmpty \<Rightarrow> PopEmpty))"

text \<open>
  \<^verbatim>\<open>Subscribe\<close> and \<^verbatim>\<open>Unsubscribe\<close> are each two critical sections: the first looks the
  queue up and sets its consumer (lines 70-74 and 86-90), the second changes \<open>keys\<close>
  under \<^verbatim>\<open>keys_mtx\<close> (lines 76-77 and 92-93).  Another thread can run between the two,
  and the second has to wait while the worker holds \<^verbatim>\<open>keys_mtx\<close>.
\<close>

definition attach_consumer ::
  "'k \<Rightarrow> 'c option \<Rightarrow> ('k, 'v, 'c) CMultiQueueProcessor \<Rightarrow> ('k, 'v, 'c) CMultiQueueProcessor" where
  "attach_consumer key cons d =
     (case GetQueue key d of
        Some q \<Rightarrow> d\<lparr>queues := (queues d)(key \<mapsto> SetConsumer cons q)\<rparr>
      | None \<Rightarrow> d)"

subsection \<open>The worker thread\<close>

text \<open>
  Where the worker is in \<^verbatim>\<open>Process\<close>, lines 161-210.  \<open>LoopHead\<close>: about to test
  \<^verbatim>\<open>while (running)\<close>.  \<open>IdleWait\<close>: in the first \<^verbatim>\<open>cv.wait\<close>.  \<open>Sweep ks\<close>: in the loop
  \<^verbatim>\<open>for (KeyType key : keys)\<close>, holding \<^verbatim>\<open>keys_mtx\<close>, with the keys \<open>ks\<close> still to
  visit.  \<open>AfterConsume ks\<close>: \<^verbatim>\<open>q->Consume()\<close> has returned for the current key and
  \<^verbatim>\<open>if (!data_ready)\<close> comes next.  \<open>DataWait ks\<close>: in the second \<^verbatim>\<open>cv.wait\<close>.
  \<open>Exited\<close>: \<^verbatim>\<open>Process\<close> has returned.  \<open>AssertFailed\<close>: an \<^verbatim>\<open>assert(q)\<close> has failed.
\<close>

datatype 'k worker_pc =
    LoopHead
  | IdleWait
  | Sweep "'k list"
  | AfterConsume "'k list"
  | DataWait "'k list"
  | Exited
  | AssertFailed

text \<open>
  The processor together with its worker: \<open>delivered\<close> records the calls of
  \<^verbatim>\<open>IConsumer::Consume\<close> in order, \<open>consume_calls\<close> counts the calls of
  \<^verbatim>\<open>q->Consume()\<close> the worker has made.
\<close>

record ('k, 'v, 'c) world =
  proc :: "('k, 'v, 'c) CMultiQueueProcessor"
  pc :: "'k worker_pc"
  delivered :: "('c \<times> 'v) list"
  consume_calls :: nat

definition world_init :: "('k, 'v, 'c) CMultiQueueProcessor \<Rightarrow> ('k, 'v, 'c) world" where
  "world_init d = \<lparr>proc = d, pc = LoopHead, delivered = [], consume_calls = 0\<rparr>"

text \<open>
  The inner loop, lines 189-199: \<open>Some True\<close> when every subscribed queue is empty,
  \<open>Some False\<close> at the first that is not, \<open>None\<close> when \<^verbatim>\<open>assert(q)\<close> fails.
\<close>

fun all_queues_empty :: "'k list \<Rightarrow> ('k, 'v, 'c) CMultiQueueProcessor \<Rightarrow> bool option" where
  "all_queues_empty [] d = Some True"
| "all_queues_empty (key # ks) d =
     (case GetQueue key d of
        None \<Rightarrow> None
      | Some q \<Rightarrow> if size_CPQueue q > 0 then Some False else all_queues_empty ks d)"

text \<open>
  One step of the worker.  A \<^verbatim>\<open>cv.wait(lc, pred)\<close> is left when the worker runs and
  finds its predicate true (C++ allows a wait to wake at any time); until then the
  step changes nothing.  The steps are as long as the locks allow the model to be
  coarse: between two steps any other thread may run.
\<close>

definition Process_step :: "('k, 'v, 'c) world \<Rightarrow> ('k, 'v, 'c) world" where
  "Process_step w =
     (let d = proc w in
      case pc w of
        LoopHead \<Rightarrow> if running d then w\<lparr>pc := IdleWait\<rparr> else w\<lparr>pc := Exited\<rparr>
      | IdleWait \<Rightarrow> if keys d \<noteq> [] \<or> \<not> running d then w\<lparr>pc := Sweep (keys d)\<rparr> else w
      | Sweep [] \<Rightarrow> w\<lparr>pc := LoopHead\<rparr>
      | Sweep (key # rest) \<Rightarrow>
          (let d1 = d\<lparr>data_ready := False\<rparr> in
           case GetQueue key d1 of
             None \<Rightarrow> w\<lparr>proc := d1, pc := AssertFailed\<rparr>
           | Some q \<Rightarrow>
               (case Consume q of
                  (r, cs, q') \<Rightarrow>
                    w\<lparr>proc := d1\<lparr>queues := (queues d1)(key \<mapsto> q')\<rparr>,
                      pc := AfterConsume rest,
                      delivered := delivered w @ cs,
                      consume_calls := Suc (consume_calls w)\<rparr>))
      | AfterConsume rest \<Rightarrow>
          if \<not> data_ready d then
            (case all_queues_empty (keys d) d of
               None \<Rightarrow> w\<lparr>pc := AssertFailed\<rparr>
             | Some True \<Rightarrow> w\<lparr>pc := DataWait rest\<rparr>
             | Some False \<Rightarrow> w\<lparr>pc := Sweep rest\<rparr>)
          else w\<lparr>pc := Sweep rest\<rparr>
      | DataWait rest \<Rightarrow> if data_ready d \<or> \<not> running d then w\<lparr>pc := Sweep rest\<rparr> else w
      | Exited \<Rightarrow> w
      | AssertFailed \<Rightarrow> w)"

text \<open>
  The worker holds \<^verbatim>\<open>keys_mtx\<close> (\<^verbatim>\<open>key_loc\<close>, line 173) from the start of a sweep to its
  end, the second \<^verbatim>\<open>cv.wait\<close> included, which releases only \<^verbatim>\<open>lc\<close>.  At the head of
  the loop and in the first \<^verbatim>\<open>cv.wait\<close> it does not.
\<close>

fun holds_keys_mtx :: "'k worker_pc \<Rightarrow> bool" where
  "holds_keys_mtx (Sweep ks) = True"
| "holds_keys_mtx (AfterConsume ks) = True"
| "holds_keys_mtx (DataWait ks) = True"
| "holds_keys_mtx _ = False"

text \<open>
  What can happen next, one critical section at a time: the worker takes a step; some
  thread calls \<^verbatim>\<open>StopProcessing\<close>; a producer calls \<^verbatim>\<open>Enqueue\<close>, or one asleep in
  \<^verbatim>\<open>Enqueue\<close> wakes up (a producer that goes to sleep leaves the data as it is);
  a \<^verbatim>\<open>Subscribe\<close> or \<^verbatim>\<open>Unsubscribe\<close> sets the consumer of a queue (\<open>SetCons\<close>), or goes
  on to insert its key into \<open>keys\<close> or to erase it (\<open>KeysInsert\<close>, \<open>KeysErase\<close>), which
  does nothing yet while the worker holds \<^verbatim>\<open>keys_mtx\<close>; a thread calls \<^verbatim>\<open>CreateQueue\<close>;
  a \<^verbatim>\<open>DeleteQueue\<close>, its \<^verbatim>\<open>Unsubscribe\<close> done, erases the queue (\<open>QueuesErase\<close>).
  \<open>None\<close>: a \<^verbatim>\<open>Push\<close> popped an empty queue.  In \<open>Process_step\<close> the predicate of the
  first wait, the locking of \<^verbatim>\<open>keys_mtx\<close> and the start of the loop are one step; a
  change of \<open>keys\<close> between them is a change just before that step.
\<close>

datatype ('k, 'v, 'c) event =
    WorkerStep
  | Stop
  | Enq 'k 'v
  | Wake 'k 'v
  | SetCons 'k "'c option"
  | KeysInsert 'k
  | KeysErase 'k
  | Create 'k EFullMode bool
  | QueuesErase 'k

fun step ::
  "('k::linorder, 'v, 'c) event \<Rightarrow> ('k, 'v, 'c) world \<Rightarrow> ('k, 'v, 'c) world option" where
  "step WorkerStep w = Some (Process_step w)"
| "step Stop w = Some (w\<lparr>proc := StopProcessing (proc w)\<rparr>)"
| "step (Enq key v) w =
     (case Enqueue key v (proc w) of
        Returned d \<Rightarrow> Some (w\<lparr>proc := d\<rparr>)
      | Suspended \<Rightarrow> Some w
      | PopEmpty \<Rightarrow> None)"
| "step (Wake key v) w =
     (case Enqueue_resume key v (proc w) of
        Returned d \<Rightarrow> Some (w\<lparr>proc := d\<rparr>)
      | Suspended \<Rightarrow> Some w
      | PopEmpty \<Rightarrow> None)"
| "step (SetCons key cons) w = Some (w\<lparr>proc := attach_consumer key cons (proc w)\<rparr>)"
| "step (KeysInsert key) w =
     Some (if holds_keys_mtx (pc w) then w
           else w\<lparr>proc := (proc w)\<lparr>keys := keys_insert key (keys (proc w))\<rparr>\<rparr>)"
| "step (KeysErase key) w =
     Some (if holds_keys_mtx (pc w) then w
           else w\<lparr>proc := (proc w)\<lparr>keys := keys_erase key (keys (proc w))\<rparr>\<rparr>)"
| "step (Create key fm skip_no_cons) w =
     Some (w\<lparr>proc := snd (CreateQueue key fm skip_no_cons (proc w))\<rparr>)"
| "step (QueuesErase key) w =
     Some (w\<lparr>proc := (proc w)\<lparr>queues := (queues (proc w))(key := None)\<rparr>\<rparr>)"

fun run ::
  "('k::linorder, 'v, 'c) event list \<Rightarrow> ('k, 'v, 'c) world \<Rightarrow> ('k, 'v, 'c) world option" where
  "run [] w = Some w"
| "run (e # es) w = (case step e w of None \<Rightarrow> None | Some w' \<Rightarrow> run es w')"

text \<open>
  The keys of the sweep in progress that the worker has not visited yet; none when no
  sweep is in progress.
\<close>

definition sweep_keys :: "('k, 'v, 'c) world \<Rightarrow> 'k list" where
  "sweep_keys w =
     (case pc w of
        Sweep ks \<Rightarrow> ks
      | AfterConsume ks \<Rightarrow> ks
      | DataWait ks \<Rightarrow> ks
      | _ \<Rightarrow> [])"



text \<open>What the properties below look at in a run: the flag, the worker and what it did.\<close>

definition observe ::
  "('k, 'v, 'c) world option \<Rightarrow> (bool \<times> 'k worker_pc \<times> nat \<times> ('c \<times> 'v) list) option" where
  "observe r = map_option (\<lambda>w. (running (proc w), pc w, consume_calls w, delivered w)) r"

subsection \<open>What the worker's assertions need\<close>

text \<open>
  \<^verbatim>\<open>assert(q)\<close> holds in a sweep when every subscribed key has a queue, the keys the
  sweep has still to visit are subscribed keys, and no assertion has failed so far.
\<close>

definition keys_have_queues :: "('k, 'v, 'c) CMultiQueueProcessor \<Rightarrow> bool" where
  "keys_have_queues d = (\<forall>key \<in> set (keys d). queues d key \<noteq> None)"

definition assert_safe :: "('k, 'v, 'c) world \<Rightarrow> bool" where
  "assert_safe w =
     (keys_have_queues (proc w) \<and> set (sweep_keys w) \<subseteq> set (keys (proc w)) \<and>
      pc w \<noteq> AssertFailed)"

text \<open>
  The events that keep every subscribed key with a queue: all but the insertion of a
  key that has no queue and the erasure of the queue of a subscribed key.
\<close>

fun event_keeps_queues :: "('k, 'v, 'c) event \<Rightarrow> ('k, 'v, 'c) world \<Rightarrow> bool" where
  "event_keeps_queues (KeysInsert key) w =
     (holds_keys_mtx (pc w) \<or> queues (proc w) key \<noteq> None)"
| "event_keeps_queues (QueuesErase key) w = (key \<notin> set (keys (proc w)))"
| "event_keeps_queues _ w = True"

fun run_keeps_queues :: "('k::linorder, 'v, 'c) event list \<Rightarrow> ('k, 'v, 'c) world \<Rightarrow> bool" where
  "run_keeps_queues [] w = True"
| "run_keeps_queues (e # es) w =
     (event_keeps_queues e w \<and>
      (case step e w of None \<Rightarrow> True | Some w' \<Rightarrow> run_keeps_queues es w'))"

subsection \<open>Two executions\<close>

text \<open>
  The demo program's start (MultiQueueTest.cpp): queues 1 and 2 are created with the
  defaults, consumers A and B subscribe, and one value is enqueued on each.
\<close>

definition example_two_queues :: "(nat, nat, string) CMultiQueueProcessor" where
  "example_two_queues =
     (let d0 = CMultiQueueProcessor_init;
          d1 = snd (CreateQueue 1 SKIP_LAST True d0);
          d2 = snd (CreateQueue 2 SKIP_LAST True d1);
          d3 = Subscribe 1 (Some ''A'') d2;
          d4 = Subscribe 2 (Some ''B'') d3;
          d5 = (case Enqueue 1 10 d4 of Returned d \<Rightarrow> d | _ \<Rightarrow> d4);
          d6 = (case Enqueue 2 20 d5 of Returned d \<Rightarrow> d | _ \<Rightarrow> d5)
      in d6)"

text \<open>
  A processor just constructed on which \<^verbatim>\<open>Subscribe(1, &A)\<close> is called, no queue
  having been created.
\<close>

definition example_subscribed_unknown :: "(nat, nat, string) CMultiQueueProcessor" where
  "example_subscribed_unknown = Subscribe 1 (Some ''A'') CMultiQueueProcessor_init"



text \<open>The capacity invariant of one queue: \<^verbatim>\<open>cpq.size() <= maxSize\<close>.\<close>

definition within_capacity :: "('v, 'c) CPQueue \<Rightarrow> bool" where
  "within_capacity q = (length (cpq q) \<le> maxSize q)"

section \<open>Properties of the queue\<close>

text \<open>
  Claim C10.  \<^verbatim>\<open>Clear\<close> empties the buffer and changes nothing else: the consumer, the
  policy, the capacity, the no-consumer flag and the notifier are what they were.
\<close>

theorem C10_Clear_frame:
  "size_CPQueue (Clear q) = 0 \<and> cpq (Clear q) = [] \<and>
   consumer (Clear q) = consumer q \<and> full_mode (Clear q) = full_mode q \<and>
   maxSize (Clear q) = maxSize q \<and> skip_if_no_consumer (Clear q) = skip_if_no_consumer q \<and>
   notifier (Clear q) = notifier q"
  by (simp add: Clear_def size_CPQueue_def)

lemma Push_gate_closed:
  "skip_if_no_consumer q \<Longrightarrow> consumer q = None \<Longrightarrow> Push v q = Returned (q, False)"
  by (simp add: Push_def)

lemma Push_all_gate_closed:
  "skip_if_no_consumer q \<Longrightarrow> consumer q = None \<Longrightarrow> Push_all vs q = Returned q"
  by (induction vs) (simp_all add: Push_gate_closed)

text \<open>
  Claim C6.  \<^verbatim>\<open>Consume\<close> returns false exactly when no consumer is attached or the
  buffer is empty, and then changes nothing and calls nobody; otherwise it hands the
  head element to the attached consumer (the one call of \<^verbatim>\<open>IConsumer::Consume\<close> made
  before it returns), removes that element and returns true.
\<close>

theorem C6_Consume:
  "(fst (Consume q) = False \<longleftrightarrow> consumer q = None \<or> cpq q = []) \<and>
   (consumer q = None \<or> cpq q = [] \<longrightarrow> Consume q = (False, [], q)) \<and>
   (\<forall>c x xs. consumer q = Some c \<and> cpq q = x # xs \<longrightarrow>
      Consume q = (True, [(c, x)], q\<lparr>cpq := xs\<rparr>))"
  by (auto simp: Consume_def split: option.splits list.splits)

theorem C6_Consume_witness:
  "Consume \<lparr>cpq = [4, 5::nat], maxSize = 3, notifier = True, full_mode = SKIP_LAST,
            skip_if_no_consumer = True, consumer = Some ''A''\<rparr>
     = (True, [(''A'', 4)],
        \<lparr>cpq = [5], maxSize = 3, notifier = True, full_mode = SKIP_LAST,
         skip_if_no_consumer = True, consumer = Some ''A''\<rparr>) \<and>
   Consume \<lparr>cpq = [4, 5::nat], maxSize = 3, notifier = True, full_mode = SKIP_LAST,
            skip_if_no_consumer = True, consumer = None :: string option\<rparr>
     = (False, [],
        \<lparr>cpq = [4, 5], maxSize = 3, notifier = True, full_mode = SKIP_LAST,
         skip_if_no_consumer = True, consumer = None\<rparr>)"
  using
    C6_Consume [of "\<lparr>cpq = [4, 5::nat], maxSize = 3, notifier = True, full_mode = SKIP_LAST,
                     skip_if_no_consumer = True, consumer = Some ''A''\<rparr>"]
    C6_Consume [of "\<lparr>cpq = [4, 5::nat], maxSize = 3, notifier = True, full_mode = SKIP_LAST,
                     skip_if_no_consumer = True, consumer = None :: string option\<rparr>"]
  by simp

text \<open>
  Claim C7.  With \<^verbatim>\<open>skip_if_no_consumer\<close> set and no consumer attached, a \<^verbatim>\<open>Push\<close>
  returns without changing the queue and without notifying, and so does any number of
  them; attaching a consumer afterwards does not change the number of buffered items,
  which is zero for a queue that was empty (as a queue just constructed is).
\<close>

theorem C7_no_consumer_drop:
  assumes "skip_if_no_consumer q" and "consumer q = None"
  shows "Push v q = Returned (q, False) \<and> Push_all vs q = Returned q \<and>
         size_CPQueue (SetConsumer (Some c) q) = size_CPQueue q \<and>
         (cpq q = [] \<longrightarrow> size_CPQueue (SetConsumer (Some c) q) = 0)"
  using assms
  by (simp add: Push_gate_closed Push_all_gate_closed size_CPQueue_def SetConsumer_def)

theorem C7_no_consumer_drop_witness:
  "Push (1::nat) (CPQueue_init 2 WAIT True True :: (nat, string) CPQueue)
     = Returned (CPQueue_init 2 WAIT True True, False) \<and>
   Push_all [1, 2, 3::nat] (CPQueue_init 2 WAIT True True :: (nat, string) CPQueue)
     = Returned (CPQueue_init 2 WAIT True True) \<and>
   size_CPQueue (SetConsumer (Some ''A'') (CPQueue_init 2 WAIT True True :: (nat, string) CPQueue)) = 0"
proof -
  let ?q = "CPQueue_init 2 WAIT True True :: (nat, string) CPQueue"
  have h: "skip_if_no_consumer ?q" "consumer ?q = None" and e: "cpq ?q = []"
    by (simp_all add: CPQueue_init_def)
  from C7_no_consumer_drop [OF h, of 1 "[1, 2, 3]" "''A''"] e
  show ?thesis by (simp del: Push_all.simps)
qed

lemma Push_full_SKIP_LAST:
  "full_mode q = SKIP_LAST \<Longrightarrow> length (cpq q) = maxSize q \<Longrightarrow> Push v q = Returned (q, False)"
  by (simp add: Push_def)

lemma Push_all_SKIP_LAST:
  "full_mode q = SKIP_LAST \<Longrightarrow> \<not> (skip_if_no_consumer q \<and> consumer q = None) \<Longrightarrow>
   length (cpq q) \<le> maxSize q \<Longrightarrow>
   Push_all vs q = Returned (q\<lparr>cpq := take (maxSize q) (cpq q @ vs)\<rparr>)"
proof (induction vs arbitrary: q)
  case Nil
  then show ?case by simp
next
  case (Cons v vs)
  show ?case
  proof (cases "length (cpq q) = maxSize q")
    case True
    with Cons.prems have "Push v q = Returned (q, False)"
      by (simp add: Push_full_SKIP_LAST)
    with Cons.IH [of q] Cons.prems True show ?thesis by simp
  next
    case False
    let ?q' = "q\<lparr>cpq := cpq q @ [v]\<rparr>"
    from False Cons.prems have push: "Push v q = Returned (?q', notifier q)"
      by (auto simp: Push_def Push_append_def)
    from False Cons.prems have "length (cpq ?q') \<le> maxSize ?q'" by simp
    with Cons.IH [of ?q'] Cons.prems push show ?thesis by simp
  qed
qed

text \<open>
  Claim C4.  Under \<^verbatim>\<open>SKIP_LAST\<close> a \<^verbatim>\<open>Push\<close> into a full buffer returns with the queue
  unchanged.  Pushing values \<open>vs\<close> into an empty queue whose consumer is attached (or
  whose \<^verbatim>\<open>skip_if_no_consumer\<close> is off), with nothing consumed in between, leaves the
  first \<open>maxSize\<close> of them buffered in order; for \<open>maxSize + 1\<close> values that is all but
  the last.
\<close>

theorem C4_SkipNewest:
  assumes "full_mode q = SKIP_LAST"
  shows "(length (cpq q) = maxSize q \<longrightarrow> Push v q = Returned (q, False)) \<and>
         (cpq q = [] \<and> (consumer q \<noteq> None \<or> \<not> skip_if_no_consumer q) \<longrightarrow>
            Push_all vs q = Returned (q\<lparr>cpq := take (maxSize q) vs\<rparr>) \<and>
            (length vs = maxSize q + 1 \<longrightarrow> Push_all vs q = Returned (q\<lparr>cpq := butlast vs\<rparr>)))"
proof -
  have "Push_all vs q = Returned (q\<lparr>cpq := take (maxSize q) vs\<rparr>)"
    if "cpq q = []" "consumer q \<noteq> None \<or> \<not> skip_if_no_consumer q"
    using Push_all_SKIP_LAST [of q vs] assms that by auto
  moreover have "take (maxSize q) vs = butlast vs" if "length vs = maxSize q + 1"
    using that by (simp add: butlast_conv_take)
  ultimately show ?thesis
    using assms by (auto simp: Push_full_SKIP_LAST)
qed

theorem C4_SkipNewest_witness:
  "Push (9::nat) \<lparr>cpq = [1, 2], maxSize = 2, notifier = True, full_mode = SKIP_LAST,
                  skip_if_no_consumer = True, consumer = Some ''A''\<rparr>
     = Returned (\<lparr>cpq = [1, 2], maxSize = 2, notifier = True, full_mode = SKIP_LAST,
                  skip_if_no_consumer = True, consumer = Some ''A''\<rparr>, False) \<and>
   Push_all [1, 2, 3::nat] \<lparr>cpq = [], maxSize = 2, notifier = True, full_mode = SKIP_LAST,
                             skip_if_no_consumer = True, consumer = Some ''A''\<rparr>
     = Returned \<lparr>cpq = [1, 2], maxSize = 2, notifier = True, full_mode = SKIP_LAST,
                 skip_if_no_consumer = True, consumer = Some ''A''\<rparr>"
proof -
  let ?full = "\<lparr>cpq = [1, 2::nat], maxSize = 2, notifier = True, full_mode = SKIP_LAST,
                 skip_if_no_consumer = True, consumer = Some ''A''\<rparr>"
  let ?empty = "\<lparr>cpq = [] :: nat list, maxSize = 2, notifier = True, full_mode = SKIP_LAST,
                  skip_if_no_consumer = True, consumer = Some ''A''\<rparr>"
  have "full_mode ?full = SKIP_LAST" "length (cpq ?full) = maxSize ?full" by simp_all
  with C4_SkipNewest [of ?full 9 "[]", THEN conjunct1]
  have a: "Push 9 ?full = Returned (?full, False)" by blast
  have "full_mode ?empty = SKIP_LAST" "cpq ?empty = []"
    "consumer ?empty \<noteq> None \<or> \<not> skip_if_no_consumer ?empty"
    "length [1, 2, 3::nat] = maxSize ?empty + 1" by simp_all
  with C4_SkipNewest [of ?empty 9 "[1, 2, 3]", THEN conjunct2]
  have "Push_all [1, 2, 3] ?empty = Returned (?empty\<lparr>cpq := butlast [1, 2, 3]\<rparr>)" by blast
  then have b: "Push_all [1, 2, 3] ?empty = Returned ?full" by (simp del: Push_all.simps)
  from a b show ?thesis by blast
qed

lemma Push_full_DROP_FIRST:
  "full_mode q = DROP_FIRST \<Longrightarrow> \<not> (skip_if_no_consumer q \<and> consumer q = None) \<Longrightarrow>
   length (cpq q) = maxSize q \<Longrightarrow> 0 < maxSize q \<Longrightarrow>
   Push v q = Returned (q\<lparr>cpq := tl (cpq q) @ [v]\<rparr>, notifier q)"
  by (cases "cpq q") (auto simp: Push_def Push_append_def)

lemma Push_all_DROP_FIRST:
  "full_mode q = DROP_FIRST \<Longrightarrow> \<not> (skip_if_no_consumer q \<and> consumer q = None) \<Longrightarrow>
   length (cpq q) \<le> maxSize q \<Longrightarrow> 0 < maxSize q \<Longrightarrow>
   Push_all vs q =
     Returned (q\<lparr>cpq := drop (length (cpq q) + length vs - maxSize q) (cpq q @ vs)\<rparr>)"
proof (induction vs arbitrary: q)
  case Nil
  then show ?case by simp
next
  case (Cons v vs)
  show ?case
  proof (cases "length (cpq q) = maxSize q")
    case True
    let ?q' = "q\<lparr>cpq := tl (cpq q) @ [v]\<rparr>"
    from True Cons.prems have push: "Push v q = Returned (?q', notifier q)"
      by (simp add: Push_full_DROP_FIRST)
    from True Cons.prems obtain x xs where xs: "cpq q = x # xs"
      by (cases "cpq q") auto
    with True have len: "length (cpq ?q') = maxSize q" by simp
    have "Push_all vs ?q' =
      Returned (?q'\<lparr>cpq := drop (length (cpq ?q') + length vs - maxSize ?q') (cpq ?q' @ vs)\<rparr>)"
      using Cons.prems len by (intro Cons.IH) simp_all
    with push xs True show ?thesis by simp
  next
    case False
    let ?q' = "q\<lparr>cpq := cpq q @ [v]\<rparr>"
    from False Cons.prems have push: "Push v q = Returned (?q', notifier q)"
      by (auto simp: Push_def Push_append_def)
    have "Push_all vs ?q' =
      Returned (?q'\<lparr>cpq := drop (length (cpq ?q') + length vs - maxSize ?q') (cpq ?q' @ vs)\<rparr>)"
      using Cons.prems False by (intro Cons.IH) simp_all
    with push show ?thesis by simp
  qed
qed

text \<open>
  Claim C5, for a capacity of at least one.  Under \<^verbatim>\<open>DROP_FIRST\<close>, with a consumer
  attached (or \<^verbatim>\<open>skip_if_no_consumer\<close> off), a \<^verbatim>\<open>Push\<close> into a full buffer removes the
  head, appends the value and notifies the owner.  Pushing values \<open>vs\<close> into the empty
  queue, with nothing consumed in between, leaves the last \<open>maxSize\<close> of them buffered in
  order; for \<open>maxSize + 1\<close> values that is all but the first.
\<close>

theorem C5_DropOldest_from_capacity_one:
  assumes "full_mode q = DROP_FIRST" and "consumer q \<noteq> None \<or> \<not> skip_if_no_consumer q"
    and "0 < maxSize q"
  shows "(length (cpq q) = maxSize q \<longrightarrow>
            Push v q = Returned (q\<lparr>cpq := tl (cpq q) @ [v]\<rparr>, notifier q)) \<and>
         (cpq q = [] \<longrightarrow>
            Push_all vs q = Returned (q\<lparr>cpq := drop (length vs - maxSize q) vs\<rparr>) \<and>
            (length vs = maxSize q + 1 \<longrightarrow> Push_all vs q = Returned (q\<lparr>cpq := tl vs\<rparr>)))"
proof -
  from assms have gate: "\<not> (skip_if_no_consumer q \<and> consumer q = None)" by auto
  have "Push_all vs q = Returned (q\<lparr>cpq := drop (length vs - maxSize q) vs\<rparr>)" if "cpq q = []"
    using Push_all_DROP_FIRST [of q vs] assms gate that by simp
  moreover have "drop (length vs - maxSize q) vs = tl vs" if "length vs = maxSize q + 1"
    using that by (simp add: drop_Suc)
  ultimately show ?thesis
    using assms gate by (auto simp: Push_full_DROP_FIRST)
qed

theorem C5_DropOldest_from_capacity_one_witness:
  "Push (9::nat) \<lparr>cpq = [1, 2], maxSize = 2, notifier = True, full_mode = DROP_FIRST,
                  skip_if_no_consumer = True, consumer = Some ''A''\<rparr>
     = Returned (\<lparr>cpq = [2, 9], maxSize = 2, notifier = True, full_mode = DROP_FIRST,
                  skip_if_no_consumer = True, consumer = Some ''A''\<rparr>, True) \<and>
   Push_all [1, 2, 3::nat] \<lparr>cpq = [], maxSize = 2, notifier = True, full_mode = DROP_FIRST,
                             skip_if_no_consumer = True, consumer = Some ''A''\<rparr>
     = Returned \<lparr>cpq = [2, 3], maxSize = 2, notifier = True, full_mode = DROP_FIRST,
                 skip_if_no_consumer = True, consumer = Some ''A''\<rparr>"
proof -
  let ?full = "\<lparr>cpq = [1, 2::nat], maxSize = 2, notifier = True, full_mode = DROP_FIRST,
                 skip_if_no_consumer = True, consumer = Some ''A''\<rparr>"
  let ?empty = "\<lparr>cpq = [] :: nat list, maxSize = 2, notifier = True, full_mode = DROP_FIRST,
                  skip_if_no_consumer = True, consumer = Some ''A''\<rparr>"
  have f: "full_mode ?full = DROP_FIRST" "consumer ?full \<noteq> None \<or> \<not> skip_if_no_consumer ?full"
    "0 < maxSize ?full" by simp_all
  have "length (cpq ?full) = maxSize ?full" by simp
  with C5_DropOldest_from_capacity_one [OF f, of 9 "[]", THEN conjunct1]
  have "Push 9 ?full = Returned (?full\<lparr>cpq := tl (cpq ?full) @ [9]\<rparr>, notifier ?full)" by blast
  then have a: "Push 9 ?full = Returned (?full\<lparr>cpq := [2, 9]\<rparr>, True)" by simp
  have e: "full_mode ?empty = DROP_FIRST" "consumer ?empty \<noteq> None \<or> \<not> skip_if_no_consumer ?empty"
    "0 < maxSize ?empty" by simp_all
  have "cpq ?empty = []" "length [1, 2, 3::nat] = maxSize ?empty + 1" by simp_all
  with C5_DropOldest_from_capacity_one [OF e, of 9 "[1, 2, 3]", THEN conjunct2]
  have "Push_all [1, 2, 3] ?empty = Returned (?empty\<lparr>cpq := tl [1, 2, 3]\<rparr>)" by blast
  then have b: "Push_all [1, 2, 3] ?empty = Returned (?empty\<lparr>cpq := [2, 3]\<rparr>)"
    by (simp del: Push_all.simps)
  from a b show ?thesis by simp
qed

text \<open>
  Claim C5 as stated covers a capacity of zero, where it fails: the empty buffer is
  full, and the first \<^verbatim>\<open>Push\<close> executes \<^verbatim>\<open>cpq.pop()\<close> on the empty \<^verbatim>\<open>std::queue\<close>.
\<close>

theorem C5_DropOldest_capacity_zero_counterexample:
  "Push_all [7::nat] (CPQueue_init 0 DROP_FIRST False False :: (nat, string) CPQueue) = PopEmpty"
  by (simp add: Push_def CPQueue_init_def)

subsection \<open>The capacity invariant\<close>

lemma Push_within_capacity:
  assumes "within_capacity q" and "Push v q = Returned (q', n)"
  shows "within_capacity q' \<and> maxSize q' = maxSize q \<and> full_mode q' = full_mode q"
  using assms
  by (auto simp: Push_def Push_append_def within_capacity_def
      split: if_splits EFullMode.splits list.splits)

lemma Push_no_PopEmpty:
  "0 < maxSize q \<or> full_mode q \<noteq> DROP_FIRST \<Longrightarrow> Push v q \<noteq> PopEmpty"
  by (auto simp: Push_def Push_append_def split: EFullMode.splits list.splits)

lemma Push_resume_within_capacity:
  assumes "within_capacity q" and "Push_resume v q = Returned (q', n)"
  shows "within_capacity q' \<and> maxSize q' = maxSize q \<and> full_mode q' = full_mode q"
  using assms
  by (auto simp: Push_resume_def Push_append_def within_capacity_def split: if_splits)

lemma Push_resume_no_PopEmpty: "Push_resume v q \<noteq> PopEmpty"
  by (simp add: Push_resume_def Push_append_def)

lemma Consume_within_capacity:
  assumes "within_capacity q" and "Consume q = (r, cs, q')"
  shows "within_capacity q' \<and> maxSize q' = maxSize q \<and> full_mode q' = full_mode q"
  using assms
  by (auto simp: Consume_def within_capacity_def split: option.splits list.splits)

lemma qstep_within_capacity:
  assumes "within_capacity (the_queue s)"
    and "0 < maxSize (the_queue s) \<or> full_mode (the_queue s) \<noteq> DROP_FIRST"
  shows "\<exists>s'. qstep opn s = Some s' \<and> within_capacity (the_queue s') \<and>
           maxSize (the_queue s') = maxSize (the_queue s) \<and>
           full_mode (the_queue s') = full_mode (the_queue s)"
proof (cases opn)
  case (OpPush v)
  show ?thesis
  proof (cases "Push v (the_queue s)")
    case (Returned qn)
    with OpPush assms(1) Push_within_capacity [of "the_queue s" v "fst qn" "snd qn"]
    show ?thesis by (cases qn) simp
  next
    case Suspended
    with OpPush assms(1) show ?thesis by simp
  next
    case PopEmpty
    with Push_no_PopEmpty [OF assms(2), of v] show ?thesis by simp
  qed
next
  case (OpResume i)
  show ?thesis
  proof (cases "Push_resume (waiting s ! i) (the_queue s)")
    case (Returned qn)
    with OpResume assms(1)
      Push_resume_within_capacity [of "the_queue s" "waiting s ! i" "fst qn" "snd qn"]
    show ?thesis by (cases qn) simp
  next
    case Suspended
    with OpResume assms(1) show ?thesis by simp
  next
    case PopEmpty
    with Push_resume_no_PopEmpty [of "waiting s ! i" "the_queue s"] show ?thesis by simp
  qed
next
  case OpConsume
  obtain r cs q' where c: "Consume (the_queue s) = (r, cs, q')"
    by (cases "Consume (the_queue s)") auto
  with OpConsume assms(1) Consume_within_capacity [OF assms(1) c] show ?thesis by simp
next
  case OpClear
  with assms(1) show ?thesis by (simp add: Clear_def within_capacity_def)
next
  case (OpSetConsumer c)
  with assms(1) show ?thesis by (simp add: SetConsumer_def within_capacity_def)
qed

lemma qrun_within_capacity:
  "within_capacity (the_queue s) \<Longrightarrow>
   0 < maxSize (the_queue s) \<or> full_mode (the_queue s) \<noteq> DROP_FIRST \<Longrightarrow>
   \<exists>s'. qrun ops s = Some s' \<and> within_capacity (the_queue s') \<and>
        maxSize (the_queue s') = maxSize (the_queue s)"
proof (induction ops arbitrary: s)
  case Nil
  then show ?case by simp
next
  case (Cons opn ops)
  from qstep_within_capacity [OF Cons.prems, of opn]
  obtain s1 where s1: "qstep opn s = Some s1" "within_capacity (the_queue s1)"
    "maxSize (the_queue s1) = maxSize (the_queue s)"
    "full_mode (the_queue s1) = full_mode (the_queue s)"
    by blast
  with Cons.prems(2) have "0 < maxSize (the_queue s1) \<or> full_mode (the_queue s1) \<noteq> DROP_FIRST"
    by simp
  from Cons.IH [OF s1(2) this] s1 show ?case by auto
qed

text \<open>
  Claim C1, for every queue but the one of capacity zero under \<^verbatim>\<open>DROP_FIRST\<close>.
  Whatever sequence of \<^verbatim>\<open>Push\<close>, \<^verbatim>\<open>Consume\<close>, \<^verbatim>\<open>Clear\<close> and \<^verbatim>\<open>SetConsumer\<close> calls
  and wake-ups of waiting producers runs on a freshly constructed queue, no call pops an
  empty buffer, and the number of buffered items afterwards is at most the capacity the
  queue was constructed with.
\<close>

theorem C1_capacity_invariant:
  assumes "0 < n \<or> fm \<noteq> DROP_FIRST"
  shows "\<exists>s'. qrun ops (qstate_init (CPQueue_init n fm skip_no_cons notif)) = Some s' \<and>
           size_CPQueue (the_queue s') \<le> n \<and> maxSize (the_queue s') = n"
  using qrun_within_capacity [of "qstate_init (CPQueue_init n fm skip_no_cons notif)" ops] assms
  by (auto simp: within_capacity_def qstate_init_def CPQueue_init_def size_CPQueue_def)

text \<open>
  Claim C1 as stated covers every queue.  On a queue of capacity zero under
  \<^verbatim>\<open>DROP_FIRST\<close> the first \<^verbatim>\<open>Push\<close> finds \<^verbatim>\<open>cpq.size() == maxSize\<close> and executes
  \<^verbatim>\<open>cpq.pop()\<close> on the empty \<^verbatim>\<open>std::queue\<close>: no state with at most zero items follows.
\<close>

theorem C1_capacity_zero_counterexample:
  "Push (7::nat) (CPQueue_init 0 DROP_FIRST False False :: (nat, string) CPQueue) = PopEmpty \<and>
   qrun [OpPush (7::nat)] (qstate_init (CPQueue_init 0 DROP_FIRST False False :: (nat, string) CPQueue))
     = None"
  by (simp add: Push_def CPQueue_init_def qstate_init_def)

theorem C1_capacity_invariant_witness:
  "\<exists>s'. qrun [OpSetConsumer (Some ''A''), OpPush (1::nat), OpPush 2, OpPush 3, OpConsume, OpClear]
           (qstate_init (CPQueue_init 2 DROP_FIRST True True)) = Some s' \<and>
         size_CPQueue (the_queue s') \<le> 2 \<and> maxSize (the_queue s') = 2"
  using C1_capacity_invariant [of 2 DROP_FIRST
      "[OpSetConsumer (Some ''A''), OpPush (1::nat), OpPush 2, OpPush 3, OpConsume, OpClear]" True True]
  by simp

subsection \<open>First in, first out\<close>











section \<open>Properties of the processor\<close>

text \<open>The definitions of the model, for evaluating it on a given state.\<close>

lemmas model_defs =
  CMultiQueueProcessor_init_def StartProcessing_def StopProcessing_def CreateQueue_def
  Subscribe_def Unsubscribe_def GetQueue_def Enqueue_def Enqueue_resume_def Notify_def
  Push_def Push_append_def Push_resume_def Consume_def SetConsumer_def CPQueue_init_def
  size_CPQueue_def keys_insert_def keys_erase_def MAX_CAPACITY_def world_init_def
  Process_step_def attach_consumer_def Let_def


text \<open>
  Claim C8.  \<^verbatim>\<open>CreateQueue\<close> on an absent key returns true and adds an empty queue of
  capacity 1000 with the given policy and flag and no consumer; on a present key it
  returns false and leaves the whole processor, that key's queue included, as it was.
  In both cases the other queues and the subscribed keys are untouched.
\<close>

theorem C8_CreateQueue:
  "(queues d key = None \<longrightarrow>
      CreateQueue key fm skip_no_cons d =
        (True, d\<lparr>queues := (queues d)(key \<mapsto> CPQueue_init MAX_CAPACITY fm skip_no_cons True)\<rparr>) \<and>
      (\<exists>q. GetQueue key (snd (CreateQueue key fm skip_no_cons d)) = Some q \<and>
           cpq q = [] \<and> maxSize q = 1000 \<and> full_mode q = fm \<and>
           skip_if_no_consumer q = skip_no_cons \<and> consumer q = None)) \<and>
   (queues d key \<noteq> None \<longrightarrow> CreateQueue key fm skip_no_cons d = (False, d)) \<and>
   (\<forall>other. other \<noteq> key \<longrightarrow>
      GetQueue other (snd (CreateQueue key fm skip_no_cons d)) = GetQueue other d) \<and>
   keys (snd (CreateQueue key fm skip_no_cons d)) = keys d"
  by (auto simp: CreateQueue_def GetQueue_def CPQueue_init_def MAX_CAPACITY_def)

theorem C8_CreateQueue_witness:
  "fst (CreateQueue (3::nat) DROP_FIRST False example_two_queues) = True \<and>
   map_option maxSize (GetQueue 3 (snd (CreateQueue (3::nat) DROP_FIRST False example_two_queues)))
     = Some 1000 \<and>
   CreateQueue (1::nat) DROP_FIRST False example_two_queues = (False, example_two_queues)"
proof -
  have a: "queues example_two_queues 3 = None" and b: "queues example_two_queues 1 \<noteq> None"
    by (simp_all add: example_two_queues_def CMultiQueueProcessor_init_def StartProcessing_def
        CreateQueue_def Subscribe_def GetQueue_def Enqueue_def Push_def Push_append_def
        SetConsumer_def CPQueue_init_def keys_insert_def Notify_def MAX_CAPACITY_def Let_def)
  from a C8_CreateQueue [of example_two_queues 3 DROP_FIRST False]
  have "fst (CreateQueue 3 DROP_FIRST False example_two_queues) = True"
    "\<exists>q. GetQueue 3 (snd (CreateQueue 3 DROP_FIRST False example_two_queues)) = Some q \<and>
         maxSize q = 1000"
    by auto
  moreover from b C8_CreateQueue [of example_two_queues 1 DROP_FIRST False]
  have "CreateQueue 1 DROP_FIRST False example_two_queues = (False, example_two_queues)"
    by blast
  ultimately show ?thesis by auto
qed

subsection \<open>The critical sections of the operations\<close>

text \<open>
  \<^verbatim>\<open>Subscribe\<close>, \<^verbatim>\<open>Unsubscribe\<close> and \<^verbatim>\<open>DeleteQueue\<close> are the events \<open>SetCons\<close>,
  \<open>KeysInsert\<close>, \<open>KeysErase\<close> and \<open>QueuesErase\<close> one after the other.
\<close>

lemma Subscribe_two_sections:
  "Subscribe key cons d =
     (attach_consumer key cons d)\<lparr>keys := keys_insert key (keys (attach_consumer key cons d))\<rparr>"
  by (simp add: Subscribe_def attach_consumer_def Let_def)

lemma Unsubscribe_two_sections:
  "Unsubscribe key d =
     (attach_consumer key None d)\<lparr>keys := keys_erase key (keys (attach_consumer key None d))\<rparr>"
  by (simp add: Unsubscribe_def attach_consumer_def Let_def)

lemma DeleteQueue_three_sections:
  "DeleteQueue key d =
     (Unsubscribe key d)\<lparr>queues := (queues (Unsubscribe key d))(key := None)\<rparr>"
  by (simp add: DeleteQueue_def Let_def)



lemma attach_consumer_frame:
  "keys (attach_consumer key cons d) = keys d \<and>
   running (attach_consumer key cons d) = running d"
  by (simp add: attach_consumer_def split: option.splits)

lemma CreateQueue_frame:
  "keys (snd (CreateQueue key fm skip_no_cons d)) = keys d \<and>
   running (snd (CreateQueue key fm skip_no_cons d)) = running d"
  by (simp add: CreateQueue_def)


subsection \<open>Subscribed keys and their queues\<close>

text \<open>
  Every operation of the processor keeps each subscribed key with a queue, except a
  \<^verbatim>\<open>Subscribe\<close> on a key that has none (and, between threads, the erasure of a queue
  whose key has been subscribed again); and as long as each subscribed key has a queue,
  no step of the worker fails an assertion.
\<close>

lemma keys_have_queues_init: "keys_have_queues CMultiQueueProcessor_init"
  by (simp add: keys_have_queues_def CMultiQueueProcessor_init_def StartProcessing_def)

lemma keys_have_queues_Subscribe:
  "keys_have_queues d \<Longrightarrow> queues d key \<noteq> None \<Longrightarrow> keys_have_queues (Subscribe key cons d)"
  by (auto simp: keys_have_queues_def Subscribe_def GetQueue_def keys_insert_def set_insort_key
      Let_def split: option.splits)

lemma keys_have_queues_Unsubscribe:
  "keys_have_queues d \<Longrightarrow> keys_have_queues (Unsubscribe key d)"
  by (auto simp: keys_have_queues_def Unsubscribe_def GetQueue_def keys_erase_def Let_def
      split: option.splits)

lemma keys_have_queues_CreateQueue:
  "keys_have_queues d \<Longrightarrow> keys_have_queues (snd (CreateQueue key fm skip_no_cons d))"
  by (auto simp: keys_have_queues_def CreateQueue_def)

lemma keys_have_queues_DeleteQueue:
  "keys_have_queues d \<Longrightarrow> keys_have_queues (DeleteQueue key d)"
  by (auto simp: keys_have_queues_def DeleteQueue_def Unsubscribe_def GetQueue_def
      keys_erase_def Let_def split: option.splits)

lemma keys_have_queues_Enqueue:
  "keys_have_queues d \<Longrightarrow> Enqueue key v d = Returned d' \<Longrightarrow> keys_have_queues d'"
  by (auto simp: keys_have_queues_def Enqueue_def Notify_def Let_def
      split: option.splits outcome.splits if_splits)

lemma keys_have_queues_Enqueue_resume:
  "keys_have_queues d \<Longrightarrow> Enqueue_resume key v d = Returned d' \<Longrightarrow> keys_have_queues d'"
  by (auto simp: keys_have_queues_def Enqueue_resume_def Notify_def Let_def
      split: option.splits outcome.splits if_splits)

lemma keys_have_queues_attach_consumer:
  "keys_have_queues d \<Longrightarrow> keys_have_queues (attach_consumer key cons d)"
  by (auto simp: keys_have_queues_def attach_consumer_def GetQueue_def split: option.splits)

lemma assert_safe_proc_update:
  "assert_safe w \<Longrightarrow> keys_have_queues d \<Longrightarrow> keys d = keys (proc w) \<Longrightarrow>
   assert_safe (w\<lparr>proc := d\<rparr>)"
  by (simp add: assert_safe_def sweep_keys_def)

lemma assert_safe_keys_update:
  "assert_safe w \<Longrightarrow> \<not> holds_keys_mtx (pc w) \<Longrightarrow> keys_have_queues d \<Longrightarrow>
   assert_safe (w\<lparr>proc := d\<rparr>)"
  by (cases "pc w") (simp_all add: assert_safe_def sweep_keys_def)

lemma all_queues_empty_Some:
  "\<forall>key \<in> set ks. queues d key \<noteq> None \<Longrightarrow> all_queues_empty ks d \<noteq> None"
  by (induction ks) (auto simp: GetQueue_def)

lemma assert_safe_Process_step:
  assumes "assert_safe w"
  shows "assert_safe (Process_step w)"
proof -
  from assms have khq: "keys_have_queues (proc w)"
    and sub: "set (sweep_keys w) \<subseteq> set (keys (proc w))"
    and ok: "pc w \<noteq> AssertFailed"
    by (simp_all add: assert_safe_def)
  show ?thesis
  proof (cases "pc w")
    case LoopHead
    with khq show ?thesis
      by (simp add: assert_safe_def Process_step_def sweep_keys_def Let_def)
  next
    case IdleWait
    with khq show ?thesis
      by (simp add: assert_safe_def Process_step_def sweep_keys_def Let_def)
  next
    case (Sweep ks)
    show ?thesis
    proof (cases ks)
      case Nil
      with Sweep khq show ?thesis
        by (simp add: assert_safe_def Process_step_def sweep_keys_def Let_def)
    next
      case (Cons key rest)
      with Sweep sub have mem: "key \<in> set (keys (proc w))" "set rest \<subseteq> set (keys (proc w))"
        by (simp_all add: sweep_keys_def)
      with khq obtain q where q: "queues (proc w) key = Some q"
        by (auto simp: keys_have_queues_def)
      obtain r cs q' where c: "Consume q = (r, cs, q')" by (cases "Consume q") auto
      let ?d = "(proc w)\<lparr>data_ready := False, queues := (queues (proc w))(key \<mapsto> q')\<rparr>"
      from Sweep Cons q c have ps: "Process_step w =
          w\<lparr>proc := ?d, pc := AfterConsume rest, delivered := delivered w @ cs,
            consume_calls := Suc (consume_calls w)\<rparr>"
        by (simp add: Process_step_def GetQueue_def Let_def)
      from khq have "keys_have_queues ?d" by (simp add: keys_have_queues_def)
      with mem(2) show ?thesis
        unfolding ps by (simp add: assert_safe_def sweep_keys_def)
    qed
  next
    case (AfterConsume ks)
    from khq have "all_queues_empty (keys (proc w)) (proc w) \<noteq> None"
      by (intro all_queues_empty_Some) (simp add: keys_have_queues_def)
    then obtain b where b: "all_queues_empty (keys (proc w)) (proc w) = Some b" by auto
    from AfterConsume sub have "set ks \<subseteq> set (keys (proc w))" by (simp add: sweep_keys_def)
    with AfterConsume khq b show ?thesis
      by (cases b) (simp_all add: assert_safe_def Process_step_def sweep_keys_def Let_def)
  next
    case (DataWait ks)
    from DataWait sub have "set ks \<subseteq> set (keys (proc w))" by (simp add: sweep_keys_def)
    with DataWait khq show ?thesis
      by (simp add: assert_safe_def Process_step_def sweep_keys_def Let_def)
  next
    case Exited
    with khq show ?thesis
      by (simp add: assert_safe_def Process_step_def sweep_keys_def Let_def)
  next
    case AssertFailed
    with ok show ?thesis by simp
  qed
qed

lemma Enqueue_keys:
  "Enqueue key v d = Returned d' \<Longrightarrow> keys d' = keys d"
  by (auto simp: Enqueue_def Notify_def Let_def split: option.splits outcome.splits if_splits)

lemma Enqueue_resume_keys:
  "Enqueue_resume key v d = Returned d' \<Longrightarrow> keys d' = keys d"
  by (auto simp: Enqueue_resume_def Notify_def Let_def split: option.splits outcome.splits if_splits)


lemma assert_safe_step:
  assumes "assert_safe w" and "event_keeps_queues e w" and "step e w = Some w'"
  shows "assert_safe w'"
proof -
  from assms(1) have khq: "keys_have_queues (proc w)" by (simp add: assert_safe_def)
  show ?thesis
  proof (cases e)
    case WorkerStep
    with assms assert_safe_Process_step show ?thesis by auto
  next
    case Stop
    from khq have "keys_have_queues (StopProcessing (proc w))"
      by (simp add: StopProcessing_def keys_have_queues_def)
    with Stop assms show ?thesis
      by (auto intro: assert_safe_proc_update simp: StopProcessing_def)
  next
    case (Enq key v)
    show ?thesis
    proof (cases "Enqueue key v (proc w)")
      case (Returned d)
      from keys_have_queues_Enqueue [OF khq Returned] Enqueue_keys [OF Returned] assms(1)
      have "assert_safe (w\<lparr>proc := d\<rparr>)" by (intro assert_safe_proc_update)
      with Enq Returned assms(3) show ?thesis by simp
    qed (use Enq assms in simp_all)
  next
    case (Wake key v)
    show ?thesis
    proof (cases "Enqueue_resume key v (proc w)")
      case (Returned d)
      from keys_have_queues_Enqueue_resume [OF khq Returned] Enqueue_resume_keys [OF Returned]
        assms(1)
      have "assert_safe (w\<lparr>proc := d\<rparr>)" by (intro assert_safe_proc_update)
      with Wake Returned assms(3) show ?thesis by simp
    qed (use Wake assms in simp_all)
  next
    case (SetCons key cons)
    from keys_have_queues_attach_consumer [OF khq, of key cons]
      attach_consumer_frame [of key cons "proc w"] assms(1)
    have "assert_safe (w\<lparr>proc := attach_consumer key cons (proc w)\<rparr>)"
      by (intro assert_safe_proc_update) simp_all
    with SetCons assms(3) show ?thesis by auto
  next
    case (KeysInsert key)
    show ?thesis
    proof (cases "holds_keys_mtx (pc w)")
      case True
      with KeysInsert assms show ?thesis by auto
    next
      case False
      with KeysInsert assms(2) khq
      have "keys_have_queues ((proc w)\<lparr>keys := keys_insert key (keys (proc w))\<rparr>)"
        by (auto simp: keys_have_queues_def keys_insert_def set_insort_key)
      from assert_safe_keys_update [OF assms(1) False this] KeysInsert False assms(3)
      show ?thesis by auto
    qed
  next
    case (KeysErase key)
    show ?thesis
    proof (cases "holds_keys_mtx (pc w)")
      case True
      with KeysErase assms show ?thesis by auto
    next
      case False
      from khq have "keys_have_queues ((proc w)\<lparr>keys := keys_erase key (keys (proc w))\<rparr>)"
        by (auto simp: keys_have_queues_def keys_erase_def)
      from assert_safe_keys_update [OF assms(1) False this] KeysErase False assms(3)
      show ?thesis by auto
    qed
  next
    case (Create key fm sk)
    from keys_have_queues_CreateQueue [OF khq, of key fm sk]
      CreateQueue_frame [of key fm sk "proc w"] assms(1)
    have "assert_safe (w\<lparr>proc := snd (CreateQueue key fm sk (proc w))\<rparr>)"
      by (intro assert_safe_proc_update) simp_all
    with Create assms(3) show ?thesis by auto
  next
    case (QueuesErase key)
    with assms(2) khq
    have "keys_have_queues ((proc w)\<lparr>queues := (queues (proc w))(key := None)\<rparr>)"
      by (auto simp: keys_have_queues_def)
    with assms(1)
    have "assert_safe (w\<lparr>proc := (proc w)\<lparr>queues := (queues (proc w))(key := None)\<rparr>\<rparr>)"
      by (intro assert_safe_proc_update) simp_all
    with QueuesErase assms(3) show ?thesis by auto
  qed
qed

lemma assert_safe_run:
  "assert_safe w \<Longrightarrow> run_keeps_queues es w \<Longrightarrow> run es w = Some w' \<Longrightarrow> pc w' \<noteq> AssertFailed"
proof (induction es arbitrary: w)
  case Nil
  then show ?case by (simp add: assert_safe_def)
next
  case (Cons e es)
  from Cons.prems(3) obtain w1 where w1: "step e w = Some w1" "run es w1 = Some w'"
    by (auto split: option.splits)
  from Cons.prems(2) w1(1) have k: "event_keeps_queues e w" "run_keeps_queues es w1" by simp_all
  from assert_safe_step [OF Cons.prems(1) k(1) w1(1)] Cons.IH k(2) w1(2) show ?case by blast
qed

lemma assert_safe_world_init: "keys_have_queues d \<Longrightarrow> assert_safe (world_init d)"
  by (simp add: assert_safe_def world_init_def sweep_keys_def)

lemma Subscribe_unknown_key:
  "queues d key = None \<Longrightarrow>
   key \<in> set (keys (Subscribe key cons d)) \<and> queues (Subscribe key cons d) = queues d"
  by (simp add: Subscribe_def GetQueue_def keys_insert_def set_insort_key)

text \<open>
  Claim C2 at the input where the code goes wrong.  \<^verbatim>\<open>Subscribe\<close> on a key without
  a queue stores the key in \<open>keys\<close> and attaches the consumer nowhere; the worker's next
  sweep gets \<^verbatim>\<open>nullptr\<close> from \<^verbatim>\<open>GetQueue\<close> for that key and its \<^verbatim>\<open>assert(q)\<close> fails
  before any \<^verbatim>\<open>Consume\<close>.  When the queue is created before the worker gets there, the
  lookup succeeds, but the queue has no consumer (the one handed to \<^verbatim>\<open>Subscribe\<close> is
  kept nowhere), so with the default flag an enqueued value is discarded.
\<close>

theorem C2_subscribe_unknown_key:
  "keys example_subscribed_unknown = [1] \<and>
   GetQueue 1 example_subscribed_unknown = None \<and>
   observe (run [WorkerStep, WorkerStep, WorkerStep] (world_init example_subscribed_unknown))
     = Some (True, AssertFailed, 0, []) \<and>
   map_option consumer (GetQueue 1 (snd (CreateQueue 1 SKIP_LAST True example_subscribed_unknown)))
     = Some None \<and>
   Enqueue 1 5 (snd (CreateQueue 1 SKIP_LAST True example_subscribed_unknown))
     = Returned (snd (CreateQueue 1 SKIP_LAST True example_subscribed_unknown))"
  by (simp add: example_subscribed_unknown_def observe_def model_defs)

subsection \<open>The worker after \<^verbatim>\<open>StopProcessing\<close>\<close>











end
